theory Spec2Isabelle
  imports Complex_Main
begin

section \<open>The collector of \<^verbatim>\<open>collector.c\<close>\<close>

text \<open>
  The collector keeps a global table \<^verbatim>\<open>hosts\<close> of \<^verbatim>\<open>MAX_HOSTS\<close> records and
  updates it from text lines received on a socket. This theory embeds the functions
  \<^verbatim>\<open>get_host\<close>, \<^verbatim>\<open>parse_cpu\<close>, \<^verbatim>\<open>parse_mem\<close> and the receive loop of
  \<^verbatim>\<open>client_thread\<close> for one connection running alone: the mutex is then a no-op and is
  left out. Behaviour that C leaves undefined is a value of type \<open>fault\<close>, and every
  function that can reach it returns \<open>fault + result\<close>.
\<close>

subsection \<open>Constants and data\<close>

definition MAX_HOSTS :: nat where
  "MAX_HOSTS = 64"

definition MAX_LINE :: nat where
  "MAX_LINE = 512"

text \<open>\<^verbatim>\<open>sizeof(hosts[i].ip)\<close>, from the declaration \<^verbatim>\<open>char ip[32]\<close>.\<close>

definition IP_SIZE :: nat where
  "IP_SIZE = 32"

text \<open>
  A \<^verbatim>\<open>float\<close> as the collector sees it: the value \<^verbatim>\<open>atof\<close> read from the text, kept
  exact (the rounding to binary32 is a function of this value and is not modelled; the
  collector does no arithmetic on these fields). The boolean is the sign bit.
\<close>

datatype cfloat = Fin bool real | Inf bool | NaN bool

text \<open>The all-zero bit pattern of a global \<^verbatim>\<open>float\<close>, which is also \<^verbatim>\<open>+0.0\<close>.\<close>

definition fzero :: cfloat where
  "fzero = Fin False 0"

text \<open>
  \<^verbatim>\<open>host_info_t\<close>. The array \<^verbatim>\<open>ip\<close> is kept as the characters in front of its
  first NUL; an array with no NUL in its \<^verbatim>\<open>IP_SIZE\<close> bytes is a list of length
  \<^verbatim>\<open>IP_SIZE\<close>.
\<close>

record host_info_t =
  ip :: string
  cpu_usage :: cfloat
  cpu_user :: cfloat
  cpu_sys :: cfloat
  cpu_idle :: cfloat
  mem_used :: cfloat
  mem_free :: cfloat
  swap_t :: cfloat
  swap_f :: cfloat
  has_cpu :: int
  has_mem :: int

text \<open>
  The globals the modelled functions touch: the table \<^verbatim>\<open>hosts\<close> and the static pointer
  of \<^verbatim>\<open>strtok\<close> (here \<open>olds\<close>: the text that a call \<^verbatim>\<open>strtok(NULL, ...)\<close> scans).
\<close>

record state =
  hosts :: "host_info_t list"
  olds :: string

datatype fault =
    NullPointer  \<comment> \<open>\<^verbatim>\<open>atof(NULL)\<close>\<close>
  | NotAString   \<comment> \<open>\<^verbatim>\<open>strcmp\<close> on an \<^verbatim>\<open>ip\<close> array that holds no NUL\<close>
  | DeadObject   \<comment> \<open>\<^verbatim>\<open>line\<close> points into the \<^verbatim>\<open>copy\<close> of the iteration before\<close>

text \<open>A global array is zero-initialised.\<close>

definition zero_host :: host_info_t where
  "zero_host = \<lparr>ip = [], cpu_usage = fzero, cpu_user = fzero, cpu_sys = fzero,
     cpu_idle = fzero, mem_used = fzero, mem_free = fzero, swap_t = fzero,
     swap_f = fzero, has_cpu = 0, has_mem = 0\<rparr>"

definition init_hosts :: "host_info_t list" where
  "init_hosts = replicate MAX_HOSTS zero_host"

subsection \<open>The C library: \<^verbatim>\<open>strtok\<close>, \<^verbatim>\<open>strncpy\<close>, \<^verbatim>\<open>strcmp\<close>, \<^verbatim>\<open>atof\<close>\<close>

text \<open>
  \<^verbatim>\<open>strtok(str, delim)\<close> with its static pointer passed in and out. It skips the
  delimiters in front, returns NULL if nothing is left, and otherwise returns the text up
  to the next delimiter and keeps the position after that delimiter. After a NULL the
  static pointer stays at the end of the text (as glibc does), so later calls return
  NULL too.
\<close>

definition strtok :: "string option \<Rightarrow> string \<Rightarrow> string \<Rightarrow> string option \<times> string" where
  "strtok str delim saved =
     (let s = (case str of Some s' \<Rightarrow> s' | None \<Rightarrow> saved);
          s1 = dropWhile (\<lambda>c. c \<in> set delim) s
      in if s1 = [] then (None, [])
         else (Some (takeWhile (\<lambda>c. c \<notin> set delim) s1),
               drop 1 (dropWhile (\<lambda>c. c \<notin> set delim) s1)))"

text \<open>
  \<^verbatim>\<open>strncpy(dst, src, n)\<close> into an array of \<open>n\<close> bytes, in the representation of
  \<open>ip\<close>: the first \<open>n\<close> characters of \<open>src\<close>, NUL-padded when \<open>src\<close> is shorter and
  with no NUL at all otherwise.
\<close>

definition strncpy :: "string \<Rightarrow> nat \<Rightarrow> string" where
  "strncpy src n = take n src"

text \<open>
  \<^verbatim>\<open>strcmp(hosts[i].ip, ip) == 0\<close>. The first argument has to be a string; an array
  of \<^verbatim>\<open>IP_SIZE\<close> bytes with no NUL is none, and the comparison would run into the
  fields behind it.
\<close>

definition strcmp_eq :: "string \<Rightarrow> string \<Rightarrow> fault + bool" where
  "strcmp_eq arr s = (if IP_SIZE \<le> length arr then Inl NotAString else Inr (arr = s))"

text \<open>
  \<^verbatim>\<open>atof\<close>, that is \<^verbatim>\<open>strtod(s, NULL)\<close> in the C locale (the collector never calls
  \<^verbatim>\<open>setlocale\<close>): white space, an optional sign, then a decimal number with an
  optional exponent, a hexadecimal number with an optional binary exponent, \<^verbatim>\<open>INF\<close>
  or \<^verbatim>\<open>NAN\<close> in any case. When no number can be read the result is zero.
\<close>

definition isspace :: "char \<Rightarrow> bool" where
  "isspace c = (c \<in> set [CHR '' '', CHR 0x09, CHR 0x0A, CHR 0x0B, CHR 0x0C, CHR 0x0D])"

definition isdigit :: "char \<Rightarrow> bool" where
  "isdigit c = (c \<in> set ''0123456789'')"

definition isxdigit :: "char \<Rightarrow> bool" where
  "isxdigit c = (c \<in> set ''0123456789abcdefABCDEF'')"

definition tolower :: "char \<Rightarrow> char" where
  "tolower c =
     (case map_of (zip ''ABCDEFGHIJKLMNOPQRSTUVWXYZ'' ''abcdefghijklmnopqrstuvwxyz'') c of
        Some l \<Rightarrow> l
      | None \<Rightarrow> c)"

definition xdigit_val :: "char \<Rightarrow> nat" where
  "xdigit_val c =
     (if isdigit c then of_char c - 48
      else if c \<in> set ''abcdef'' then of_char c - 87
      else of_char c - 55)"

text \<open>The number written by a run of digits in the given base, most significant first.\<close>

fun digits_val :: "nat \<Rightarrow> nat \<Rightarrow> string \<Rightarrow> nat" where
  "digits_val base acc [] = acc"
| "digits_val base acc (c # cs) = digits_val base (acc * base + xdigit_val c) cs"

text \<open>
  The exponent part after the mantissa: the letter \<open>e\<close> (given in lower case), an
  optional sign and at least one decimal digit; anything else is no exponent.
\<close>

definition exponent :: "char \<Rightarrow> string \<Rightarrow> int" where
  "exponent e s =
     (case s of
        [] \<Rightarrow> 0
      | c # r \<Rightarrow>
          if tolower c \<noteq> e then 0
          else
            (let neg = (take 1 r = ''-'');
                 r' = (if take 1 r = ''-'' \<or> take 1 r = ''+'' then drop 1 r else r);
                 ds = takeWhile isdigit r'
             in if ds = [] then 0
                else if neg then - int (digits_val 10 0 ds) else int (digits_val 10 0 ds)))"

text \<open>
  A mantissa in the given base: digits, optionally with one point among them, at least
  one digit in all. The result is its value and the text behind it.
\<close>

definition mantissa :: "nat \<Rightarrow> (char \<Rightarrow> bool) \<Rightarrow> string \<Rightarrow> (real \<times> string) option" where
  "mantissa base isdig s =
     (let ds = takeWhile isdig s;
          r = dropWhile isdig s;
          fs = (if take 1 r = ''.'' then takeWhile isdig (drop 1 r) else []);
          r' = (if take 1 r = ''.'' then dropWhile isdig (drop 1 r) else r)
      in if ds = [] \<and> fs = [] then None
         else Some (real (digits_val base 0 (ds @ fs)) / real base ^ length fs, r'))"

definition strtod_body :: "string \<Rightarrow> bool \<Rightarrow> cfloat" where
  "strtod_body s neg =
     (if map tolower (take 3 s) = ''inf'' then Inf neg
      else if map tolower (take 3 s) = ''nan'' then NaN neg
      else
        (case (if map tolower (take 2 s) = ''0x''
               then mantissa 16 isxdigit (drop 2 s) else None) of
           Some (m, r) \<Rightarrow> Fin neg (m * 2 powi exponent CHR ''p'' r)
         | None \<Rightarrow>
             (case mantissa 10 isdigit s of
                Some (m, r) \<Rightarrow> Fin neg (m * 10 powi exponent CHR ''e'' r)
              | None \<Rightarrow> fzero)))"

definition atof :: "string \<Rightarrow> cfloat" where
  "atof nptr =
     (let s = dropWhile isspace nptr;
          neg = (take 1 s = ''-'');
          s' = (if take 1 s = ''-'' \<or> take 1 s = ''+'' then drop 1 s else s)
      in strtod_body s' neg)"

text \<open>\<^verbatim>\<open>atof(strtok(NULL, ";"))\<close>: the argument may be NULL, and \<^verbatim>\<open>atof\<close> reads through it.\<close>

definition atof_ptr :: "string option \<Rightarrow> fault + cfloat" where
  "atof_ptr p = (case p of None \<Rightarrow> Inl NullPointer | Some s \<Rightarrow> Inr (atof s))"

subsection \<open>\<^verbatim>\<open>get_host\<close>\<close>

text \<open>The first loop: the index of the first record whose \<open>ip\<close> equals the argument.\<close>

function get_host_find :: "host_info_t list \<Rightarrow> string \<Rightarrow> nat \<Rightarrow> fault + nat option" where
  "get_host_find hs ip' i =
     (if i < MAX_HOSTS then
        (case strcmp_eq (ip (hs ! i)) ip' of
           Inl f \<Rightarrow> Inl f
         | Inr True \<Rightarrow> Inr (Some i)
         | Inr False \<Rightarrow> get_host_find hs ip' (i + 1))
      else Inr None)"
  by pat_completeness auto
termination
  by (relation "measure (\<lambda>(hs, ip', i). MAX_HOSTS - i)") auto

text \<open>The second loop: the index of the first record with \<^verbatim>\<open>ip[0] == '\0'\<close>.\<close>

function get_host_free :: "host_info_t list \<Rightarrow> nat \<Rightarrow> nat option" where
  "get_host_free hs i =
     (if i < MAX_HOSTS then
        (if ip (hs ! i) = [] then Some i else get_host_free hs (i + 1))
      else None)"
  by pat_completeness auto
termination
  by (relation "measure (\<lambda>(hs, i). MAX_HOSTS - i)") auto

text \<open>
  \<^verbatim>\<open>get_host\<close> returns the table, in which a free record may have received the
  name, and the index of the record it points to, \<open>None\<close> for NULL.
\<close>

definition get_host :: "host_info_t list \<Rightarrow> string \<Rightarrow> fault + (host_info_t list \<times> nat option)" where
  "get_host hs ip' =
     (case get_host_find hs ip' 0 of
        Inl f \<Rightarrow> Inl f
      | Inr (Some i) \<Rightarrow> Inr (hs, Some i)
      | Inr None \<Rightarrow>
          (case get_host_free hs 0 of
             Some i \<Rightarrow> Inr (hs[i := (hs ! i)\<lparr>ip := strncpy ip' IP_SIZE\<rparr>], Some i)
           | None \<Rightarrow> Inr (hs, None)))"

subsection \<open>\<^verbatim>\<open>parse_cpu\<close> and \<^verbatim>\<open>parse_mem\<close>\<close>

text \<open>
  The six calls of \<^verbatim>\<open>strtok\<close> in their order, the static pointer threaded through
  them as \<open>o1\<close> to \<open>o6\<close>. \<^verbatim>\<open>parse_cpu\<close> returns early when the token of the host or
  of the usage is NULL; \<^verbatim>\<open>parse_mem\<close> when the token of the host is. Every other
  token goes to \<^verbatim>\<open>atof\<close> as \<^verbatim>\<open>strtok\<close> returned it.
\<close>

definition parse_cpu :: "state \<Rightarrow> string \<Rightarrow> fault + state" where
  "parse_cpu st msg =
     (let (tok, o1) = strtok (Some msg) '';'' (olds st);
          (tok, o2) = strtok None '';'' o1
      in case tok of
           None \<Rightarrow> Inr (st\<lparr>olds := o2\<rparr>)
         | Some ip' \<Rightarrow>
      (let (tok, o3) = strtok None '';'' o2
       in case tok of
            None \<Rightarrow> Inr (st\<lparr>olds := o3\<rparr>)
          | Some t \<Rightarrow>
      (let usage = atof t;
           (tok, o4) = strtok None '';'' o3
       in case atof_ptr tok of Inl f \<Rightarrow> Inl f | Inr user \<Rightarrow>
      (let (tok, o5) = strtok None '';'' o4
       in case atof_ptr tok of Inl f \<Rightarrow> Inl f | Inr sys \<Rightarrow>
      (let (tok, o6) = strtok None '';'' o5
       in case atof_ptr tok of Inl f \<Rightarrow> Inl f | Inr idle \<Rightarrow>
      (case get_host (hosts st) ip' of
         Inl f \<Rightarrow> Inl f
       | Inr (hs, None) \<Rightarrow> Inr \<lparr>hosts = hs, olds = o6\<rparr>
       | Inr (hs, Some i) \<Rightarrow>
           Inr \<lparr>hosts = hs[i := (hs ! i)\<lparr>cpu_usage := usage, cpu_user := user,
                                         cpu_sys := sys, cpu_idle := idle, has_cpu := 1\<rparr>],
                olds = o6\<rparr>))))))"

definition parse_mem :: "state \<Rightarrow> string \<Rightarrow> fault + state" where
  "parse_mem st msg =
     (let (tok, o1) = strtok (Some msg) '';'' (olds st);
          (tok, o2) = strtok None '';'' o1
      in case tok of
           None \<Rightarrow> Inr (st\<lparr>olds := o2\<rparr>)
         | Some ip' \<Rightarrow>
      (let (tok, o3) = strtok None '';'' o2
       in case atof_ptr tok of Inl f \<Rightarrow> Inl f | Inr used \<Rightarrow>
      (let (tok, o4) = strtok None '';'' o3
       in case atof_ptr tok of Inl f \<Rightarrow> Inl f | Inr free \<Rightarrow>
      (let (tok, o5) = strtok None '';'' o4
       in case atof_ptr tok of Inl f \<Rightarrow> Inl f | Inr swt \<Rightarrow>
      (let (tok, o6) = strtok None '';'' o5
       in case atof_ptr tok of Inl f \<Rightarrow> Inl f | Inr swf \<Rightarrow>
      (case get_host (hosts st) ip' of
         Inl f \<Rightarrow> Inl f
       | Inr (hs, None) \<Rightarrow> Inr \<lparr>hosts = hs, olds = o6\<rparr>
       | Inr (hs, Some i) \<Rightarrow>
           Inr \<lparr>hosts = hs[i := (hs ! i)\<lparr>mem_used := used, mem_free := free,
                                         swap_t := swt, swap_f := swf, has_mem := 1\<rparr>],
                olds = o6\<rparr>))))))"

subsection \<open>The receive loop of \<^verbatim>\<open>client_thread\<close>\<close>

text \<open>
  After \<^verbatim>\<open>parse_cpu(copy)\<close> or \<^verbatim>\<open>parse_mem(copy)\<close> the static pointer of
  \<^verbatim>\<open>strtok\<close> is inside \<^verbatim>\<open>copy\<close>, so \<^verbatim>\<open>line = strtok(NULL, "\n")\<close> continues
  there and not in \<^verbatim>\<open>buf\<close>. With nothing left the loop ends. With something left,
  \<^verbatim>\<open>line\<close> points into \<^verbatim>\<open>copy\<close>, whose lifetime ends with the iteration, and the next
  iteration copies from it into the new \<^verbatim>\<open>copy\<close>.
\<close>

definition next_line_in_copy :: "fault + state \<Rightarrow> fault + state" where
  "next_line_in_copy r =
     (case r of
        Inl f \<Rightarrow> Inl f
      | Inr st \<Rightarrow>
          (case strtok None [CHR 0x0A] (olds st) of
             (None, s) \<Rightarrow> Inr (st\<lparr>olds := s\<rparr>)
           | (Some line, s) \<Rightarrow> Inl DeadObject))"

text \<open>
  The loop \<^verbatim>\<open>while (line)\<close>, entered with \<^verbatim>\<open>line\<close> pointing into \<^verbatim>\<open>buf\<close>.
\<close>

function lines_loop :: "state \<Rightarrow> string option \<Rightarrow> fault + state" where
  "lines_loop st None = Inr st"
| "lines_loop st (Some line) =
     (let copy = take (MAX_LINE - 1) (strncpy line MAX_LINE)
      in if take 4 copy = ''CPU;'' then next_line_in_copy (parse_cpu st copy)
         else if take 4 copy = ''MEM;'' then next_line_in_copy (parse_mem st copy)
         else (case strtok None [CHR 0x0A] (olds st) of
                 (line', s) \<Rightarrow> lines_loop (st\<lparr>olds := s\<rparr>) line'))"
  by pat_completeness auto
termination
proof (relation "measure (\<lambda>(st, l). length (olds st) + (case l of None \<Rightarrow> 0 | Some _ \<Rightarrow> 1))",
    goal_cases)
  case 1
  show ?case by simp
next
  case (2 st line copy x l')
  have key: "length r + (case t of None \<Rightarrow> 0 | Some _ \<Rightarrow> 1) < Suc (length s)"
    if "strtok None d s = (t, r)" for d s t r
  proof (cases "dropWhile (\<lambda>c. c \<in> set d) s = []")
    case True
    with that show ?thesis by (simp add: strtok_def)
  next
    case False
    define s1 where "s1 = dropWhile (\<lambda>c. c \<in> set d) s"
    define s2 where "s2 = dropWhile (\<lambda>c. c \<notin> set d) s1"
    have "length s2 \<le> length s1"
      unfolding s2_def by (rule length_dropWhile_le)
    moreover have "length s1 \<le> length s"
      unfolding s1_def by (rule length_dropWhile_le)
    moreover have "0 < length s1"
      using False by (simp add: s1_def)
    moreover have "strtok None d s = (Some (takeWhile (\<lambda>c. c \<notin> set d) s1), drop 1 s2)"
      using False unfolding strtok_def Let_def s1_def s2_def by simp
    with that have "r = drop 1 s2" and "t \<noteq> None"
      by auto
    ultimately show ?thesis
      by (cases s1) auto
  qed
  from 2(4) have "strtok None [CHR 0x0A] (olds st) = (x, l')" by simp
  from key [OF this] show ?case by simp
qed

text \<open>
  The loop \<^verbatim>\<open>while (keep_running)\<close> for one connection. The list holds what the
  successive calls of \<^verbatim>\<open>recv\<close> deliver, each between 1 and \<^verbatim>\<open>MAX_LINE - 1\<close> bytes;
  an empty entry or the end of the list is a \<^verbatim>\<open>recv\<close> that returns no bytes, which
  ends the loop. \<^verbatim>\<open>buf[n] = '\0'\<close> makes \<^verbatim>\<open>buf\<close> the string of the bytes in front of
  the first NUL received.
\<close>

fun client_thread :: "state \<Rightarrow> string list \<Rightarrow> fault + state" where
  "client_thread st [] = Inr st"
| "client_thread st (r # rs) =
     (if r = [] then Inr st
      else
        (case strtok (Some (takeWhile (\<lambda>c. c \<noteq> CHR 0x00) r)) [CHR 0x0A] (olds st) of
           (line, s) \<Rightarrow>
             (case lines_loop (st\<lparr>olds := s\<rparr>) line of
                Inl f \<Rightarrow> Inl f
              | Inr st' \<Rightarrow> client_thread st' rs)))"

declare get_host_find.simps [simp del] get_host_free.simps [simp del]

subsection \<open>The rows the display shows\<close>


subsection \<open>The wire format\<close>

text \<open>
  What an agent sends: \<^verbatim>\<open>CPU;ip;usage;user;sys;idle\<close> or
  \<^verbatim>\<open>MEM;ip;used;free;swapT;swapF\<close>, as the header comment of \<^verbatim>\<open>collector.c\<close> gives
  the two formats. An update is the kind, the host and the four numeric fields as text.
\<close>

datatype kind = CPU | MEM

record update =
  kind :: kind
  host_id :: string
  v1 :: string
  v2 :: string
  v3 :: string
  v4 :: string

definition wire_line :: "update \<Rightarrow> string" where
  "wire_line u =
     (case kind u of CPU \<Rightarrow> ''CPU;'' | MEM \<Rightarrow> ''MEM;'') @
     host_id u @ '';'' @ v1 u @ '';'' @ v2 u @ '';'' @ v3 u @ '';'' @ v4 u"

text \<open>A field that is present: not empty, and free of the separators and of NUL.\<close>

definition field_ok :: "string \<Rightarrow> bool" where
  "field_ok f =
     (f \<noteq> [] \<and> CHR '';'' \<notin> set f \<and> CHR 0x0A \<notin> set f \<and> CHR 0x00 \<notin> set f)"

definition fields_ok :: "update \<Rightarrow> bool" where
  "fields_ok u =
     (field_ok (host_id u) \<and> field_ok (v1 u) \<and> field_ok (v2 u) \<and> field_ok (v3 u) \<and>
      field_ok (v4 u))"


text \<open>The assignments of \<^verbatim>\<open>parse_cpu\<close> and \<^verbatim>\<open>parse_mem\<close> to the record \<^verbatim>\<open>h\<close>.\<close>

definition store :: "update \<Rightarrow> host_info_t \<Rightarrow> host_info_t" where
  "store u h =
     (case kind u of
        CPU \<Rightarrow> h\<lparr>cpu_usage := atof (v1 u), cpu_user := atof (v2 u), cpu_sys := atof (v3 u),
                 cpu_idle := atof (v4 u), has_cpu := 1\<rparr>
      | MEM \<Rightarrow> h\<lparr>mem_used := atof (v1 u), mem_free := atof (v2 u), swap_t := atof (v3 u),
                 swap_f := atof (v4 u), has_mem := 1\<rparr>)"

text \<open>The parser that \<^verbatim>\<open>client_thread\<close> picks for a line of the given kind.\<close>

definition parse :: "kind \<Rightarrow> state \<Rightarrow> string \<Rightarrow> fault + state" where
  "parse k = (case k of CPU \<Rightarrow> parse_cpu | MEM \<Rightarrow> parse_mem)"


text \<open>The distinct elements of a list, each at its first occurrence.\<close>

definition arrival :: "'a list \<Rightarrow> 'a list" where
  "arrival xs = rev (remdups (rev xs))"






text \<open>
  The critical section of \<^verbatim>\<open>parse_cpu\<close> and \<^verbatim>\<open>parse_mem\<close> for an update: \<^verbatim>\<open>get_host\<close>,
  then the assignments if it returned a record. The last argument is where \<^verbatim>\<open>strtok\<close>
  stands.
\<close>

definition apply_update :: "update \<Rightarrow> host_info_t list \<Rightarrow> string \<Rightarrow> fault + state" where
  "apply_update u hs r =
     (case get_host hs (host_id u) of
        Inl f \<Rightarrow> Inl f
      | Inr (hs', None) \<Rightarrow> Inr \<lparr>hosts = hs', olds = r\<rparr>
      | Inr (hs', Some i) \<Rightarrow> Inr \<lparr>hosts = hs'[i := store u (hs' ! i)], olds = r\<rparr>)"

text \<open>
  One table comes after another: the same number of records, every name that was set
  is still the same, and every flag that was set is still set.
\<close>

definition grows :: "host_info_t list \<Rightarrow> host_info_t list \<Rightarrow> bool" where
  "grows hs hs' =
     (length hs' = length hs \<and>
      (\<forall>j<length hs.
         (ip (hs ! j) \<noteq> [] \<longrightarrow> ip (hs' ! j) = ip (hs ! j)) \<and>
         (has_cpu (hs ! j) \<noteq> 0 \<longrightarrow> has_cpu (hs' ! j) \<noteq> 0) \<and>
         (has_mem (hs ! j) \<noteq> 0 \<longrightarrow> has_mem (hs' ! j) \<noteq> 0)))"

text \<open>
  The table holds the names \<open>ids\<close>, in this order, in its first records, and every
  other record is free. The names are distinct strings that fit the array.
\<close>

definition table_of :: "string list \<Rightarrow> host_info_t list \<Rightarrow> bool" where
  "table_of ids hs =
     (length hs = MAX_HOSTS \<and> length ids \<le> MAX_HOSTS \<and>
      map ip hs = ids @ replicate (MAX_HOSTS - length ids) [] \<and>
      distinct ids \<and> (\<forall>x\<in>set ids. x \<noteq> [] \<and> length x < IP_SIZE))"


section \<open>Facts about the library functions and the loops of \<^verbatim>\<open>get_host\<close>\<close>

subsection \<open>Tokens of a line\<close>

lemma strtok_Some: "strtok (Some s) d x = strtok None d s"
  by (simp add: strtok_def)

lemma strtok_field_more:
  assumes "f \<noteq> []" "CHR '';'' \<notin> set f"
  shows "strtok None '';'' (f @ CHR '';'' # r) = (Some f, r)"
proof -
  obtain c cs where f: "f = c # cs" using assms(1) by (cases f) auto
  with assms(2) have c: "c \<noteq> CHR '';''" and cs: "\<forall>x\<in>set cs. x \<noteq> CHR '';''" by auto
  have t: "takeWhile (\<lambda>c. c \<noteq> CHR '';'') (cs @ CHR '';'' # r) = cs"
    using cs by (simp add: takeWhile_append2)
  have d: "dropWhile (\<lambda>c. c \<noteq> CHR '';'') (cs @ CHR '';'' # r) = CHR '';'' # r"
    using cs by (simp add: dropWhile_append2)
  show ?thesis
    by (simp add: strtok_def f c t d)
qed


lemma strtok_nil: "strtok None d [] = (None, [])"
  by (simp add: strtok_def)

lemma strtok_skip: "strtok None '';'' (CHR '';'' # s) = strtok None '';'' s"
  by (simp add: strtok_def)

lemma strtok_CPU: "strtok (Some (CHR ''C'' # CHR ''P'' # CHR ''U'' # CHR '';'' # r)) '';'' x = (Some ''CPU'', r)"
  by (simp add: strtok_def)

lemma strtok_MEM: "strtok (Some (CHR ''M'' # CHR ''E'' # CHR ''M'' # CHR '';'' # r)) '';'' x = (Some ''MEM'', r)"
  by (simp add: strtok_def)

subsection \<open>Text that is no number\<close>






subsection \<open>The two loops of \<^verbatim>\<open>get_host\<close>\<close>

lemma get_host_free_Some:
  "get_host_free hs i = Some k \<Longrightarrow>
     i \<le> k \<and> k < MAX_HOSTS \<and> ip (hs ! k) = [] \<and> (\<forall>j. i \<le> j \<and> j < k \<longrightarrow> ip (hs ! j) \<noteq> [])"
proof (induction hs i rule: get_host_free.induct)
  case (1 hs i)
  show ?case
  proof (cases "i < MAX_HOSTS \<and> ip (hs ! i) \<noteq> []")
    case True
    with "1.prems" have "get_host_free hs (i + 1) = Some k"
      by (subst (asm) get_host_free.simps) simp
    with True "1.IH" have IH: "i + 1 \<le> k \<and> k < MAX_HOSTS \<and> ip (hs ! k) = [] \<and>
        (\<forall>j. i + 1 \<le> j \<and> j < k \<longrightarrow> ip (hs ! j) \<noteq> [])"
      by simp
    have "ip (hs ! j) \<noteq> []" if "i \<le> j" "j < k" for j
      using that IH True by (cases "j = i") auto
    with IH show ?thesis by auto
  next
    case False
    with "1.prems" show ?thesis
      by (subst (asm) get_host_free.simps) (auto split: if_splits)
  qed
qed

lemma get_host_free_None:
  "get_host_free hs i = None \<Longrightarrow> i \<le> j \<Longrightarrow> j < MAX_HOSTS \<Longrightarrow> ip (hs ! j) \<noteq> []"
proof (induction hs i rule: get_host_free.induct)
  case (1 hs i)
  from "1.prems" have i: "i < MAX_HOSTS" by simp
  from "1.prems"(1) i have ne: "ip (hs ! i) \<noteq> []" and nxt: "get_host_free hs (i + 1) = None"
    by (subst (asm) get_host_free.simps, simp split: if_splits)+
  show ?case
  proof (cases "j = i")
    case True
    with ne show ?thesis by simp
  next
    case False
    with "1.prems" have "i + 1 \<le> j" by simp
    with "1.IH" [OF i ne nxt] "1.prems" show ?thesis by simp
  qed
qed

lemma get_host_find_Some:
  "get_host_find hs x i = Inr (Some k) \<Longrightarrow>
     i \<le> k \<and> k < MAX_HOSTS \<and> ip (hs ! k) = x \<and> length (ip (hs ! k)) < IP_SIZE \<and>
     (\<forall>j. i \<le> j \<and> j < k \<longrightarrow> ip (hs ! j) \<noteq> x \<and> length (ip (hs ! j)) < IP_SIZE)"
proof (induction hs x i rule: get_host_find.induct)
  case (1 hs x i)
  from "1.prems" have i: "i < MAX_HOSTS"
    by (subst (asm) get_host_find.simps) (simp split: if_splits)
  from "1.prems" i have len: "length (ip (hs ! i)) < IP_SIZE"
    by (subst (asm) get_host_find.simps) (simp add: strcmp_eq_def split: if_splits)
  show ?case
  proof (cases "ip (hs ! i) = x")
    case True
    with "1.prems" i len have "k = i"
      by (subst (asm) get_host_find.simps) (simp add: strcmp_eq_def)
    with True i len show ?thesis by auto
  next
    case False
    with "1.prems" i len have nxt: "get_host_find hs x (i + 1) = Inr (Some k)"
      by (subst (asm) get_host_find.simps) (simp add: strcmp_eq_def)
    have cmp: "strcmp_eq (ip (hs ! i)) x = Inr False"
      using False len by (simp add: strcmp_eq_def)
    from "1.IH" [OF i cmp] nxt have IH: "i + 1 \<le> k \<and> k < MAX_HOSTS \<and> ip (hs ! k) = x \<and>
        length (ip (hs ! k)) < IP_SIZE \<and>
        (\<forall>j. i + 1 \<le> j \<and> j < k \<longrightarrow> ip (hs ! j) \<noteq> x \<and> length (ip (hs ! j)) < IP_SIZE)"
      by auto
    have "ip (hs ! j) \<noteq> x \<and> length (ip (hs ! j)) < IP_SIZE" if "i \<le> j" "j < k" for j
      using that IH False len by (cases "j = i") auto
    with IH show ?thesis by auto
  qed
qed

lemma get_host_find_None:
  "get_host_find hs x i = Inr None \<Longrightarrow> i \<le> j \<Longrightarrow> j < MAX_HOSTS \<Longrightarrow>
     ip (hs ! j) \<noteq> x \<and> length (ip (hs ! j)) < IP_SIZE"
proof (induction hs x i rule: get_host_find.induct)
  case (1 hs x i)
  from "1.prems" have i: "i < MAX_HOSTS" by simp
  from "1.prems"(1) i have len: "length (ip (hs ! i)) < IP_SIZE"
    by (subst (asm) get_host_find.simps) (simp add: strcmp_eq_def split: if_splits)
  from "1.prems"(1) i len have ne: "ip (hs ! i) \<noteq> x"
    by (subst (asm) get_host_find.simps) (auto simp add: strcmp_eq_def split: if_splits)
  from "1.prems"(1) i len ne have nxt: "get_host_find hs x (i + 1) = Inr None"
    by (subst (asm) get_host_find.simps) (simp add: strcmp_eq_def)
  have cmp: "strcmp_eq (ip (hs ! i)) x = Inr False"
    using ne len by (simp add: strcmp_eq_def)
  show ?case
  proof (cases "j = i")
    case True
    with ne len show ?thesis by simp
  next
    case False
    with "1.prems" have "i + 1 \<le> j" by simp
    from "1.IH" [OF i cmp] nxt this "1.prems"(3) show ?thesis by simp
  qed
qed

text \<open>Conversely, what the loops return when the position of the answer is known.\<close>

lemma get_host_find_hit:
  assumes "i \<le> k" "k < MAX_HOSTS" "ip (hs ! k) = x"
    and "\<forall>j. i \<le> j \<and> j < k \<longrightarrow> ip (hs ! j) \<noteq> x"
    and "\<forall>j. i \<le> j \<and> j \<le> k \<longrightarrow> length (ip (hs ! j)) < IP_SIZE"
  shows "get_host_find hs x i = Inr (Some k)"
  using assms
proof (induction "k - i" arbitrary: i)
  case 0
  then have "i = k" by simp
  moreover from 0 this have "length (ip (hs ! k)) < IP_SIZE" by auto
  ultimately show ?case
    using 0 by (subst get_host_find.simps) (simp add: strcmp_eq_def)
next
  case (Suc n)
  then have ik: "i < k" by simp
  with Suc.prems have ne: "ip (hs ! i) \<noteq> x" and len: "length (ip (hs ! i)) < IP_SIZE"
    by auto
  have "get_host_find hs x (i + 1) = Inr (Some k)"
    using Suc.hyps(2) Suc.prems ik by (intro Suc.hyps(1)) auto
  with ne len ik Suc.prems(2) show ?case
    by (subst get_host_find.simps) (simp add: strcmp_eq_def)
qed

lemma get_host_find_miss:
  assumes "\<forall>j. i \<le> j \<and> j < MAX_HOSTS \<longrightarrow> ip (hs ! j) \<noteq> x \<and> length (ip (hs ! j)) < IP_SIZE"
  shows "get_host_find hs x i = Inr None"
  using assms
proof (induction "MAX_HOSTS - i" arbitrary: i)
  case 0
  then show ?case
    by (subst get_host_find.simps) simp
next
  case (Suc n)
  then have i: "i < MAX_HOSTS" by simp
  with Suc.prems have ne: "ip (hs ! i) \<noteq> x" and len: "length (ip (hs ! i)) < IP_SIZE"
    by auto
  have "get_host_find hs x (i + 1) = Inr None"
    using Suc.hyps(2) Suc.prems by (intro Suc.hyps(1)) auto
  with ne len i show ?case
    by (subst get_host_find.simps) (simp add: strcmp_eq_def)
qed

lemma get_host_free_hit:
  assumes "i \<le> k" "k < MAX_HOSTS" "ip (hs ! k) = []"
    and "\<forall>j. i \<le> j \<and> j < k \<longrightarrow> ip (hs ! j) \<noteq> []"
  shows "get_host_free hs i = Some k"
  using assms
proof (induction "k - i" arbitrary: i)
  case 0
  then have "i = k" by simp
  with 0 show ?case
    by (subst get_host_free.simps) simp
next
  case (Suc n)
  then have ik: "i < k" by simp
  with Suc.prems have ne: "ip (hs ! i) \<noteq> []"
    by auto
  have "get_host_free hs (i + 1) = Some k"
    using Suc.hyps(2) Suc.prems ik by (intro Suc.hyps(1)) auto
  with ne ik Suc.prems(2) show ?case
    by (subst get_host_free.simps) simp
qed


subsection \<open>What \<^verbatim>\<open>get_host\<close> returns\<close>

lemma get_host_cases:
  assumes "get_host hs x = Inr (hs', r)"
  shows "(r = None \<and> hs' = hs \<and> (\<forall>j<MAX_HOSTS. ip (hs ! j) \<noteq> x \<and> ip (hs ! j) \<noteq> [])) \<or>
         (\<exists>i<MAX_HOSTS. r = Some i \<and> hs' = hs \<and> ip (hs ! i) = x \<and> length x < IP_SIZE) \<or>
         (\<exists>i<MAX_HOSTS. r = Some i \<and> hs' = hs[i := (hs ! i)\<lparr>ip := take IP_SIZE x\<rparr>] \<and>
            ip (hs ! i) = [] \<and> (\<forall>j<MAX_HOSTS. ip (hs ! j) \<noteq> x))"
proof (cases "get_host_find hs x 0")
  case (Inl f)
  with assms show ?thesis by (simp add: get_host_def)
next
  case (Inr found)
  show ?thesis
  proof (cases found)
    case (Some i)
    with Inr assms have "r = Some i" "hs' = hs" by (simp_all add: get_host_def)
    moreover from get_host_find_Some [of hs x 0 i] Inr Some
    have "i < MAX_HOSTS" "ip (hs ! i) = x" "length x < IP_SIZE" by auto
    ultimately show ?thesis by blast
  next
    case None
    with Inr have nf: "\<forall>j<MAX_HOSTS. ip (hs ! j) \<noteq> x"
      using get_host_find_None [of hs x 0] by auto
    show ?thesis
    proof (cases "get_host_free hs 0")
      case None
      with \<open>found = None\<close> Inr assms have "r = None" "hs' = hs" by (simp_all add: get_host_def)
      moreover have "\<forall>j<MAX_HOSTS. ip (hs ! j) \<noteq> []"
        using get_host_free_None [OF None] by auto
      ultimately show ?thesis using nf by blast
    next
      case (Some i)
      with \<open>found = None\<close> Inr assms
      have "r = Some i" "hs' = hs[i := (hs ! i)\<lparr>ip := take IP_SIZE x\<rparr>]"
        by (simp_all add: get_host_def strncpy_def)
      moreover from get_host_free_Some [OF Some] have "i < MAX_HOSTS" "ip (hs ! i) = []" by auto
      ultimately show ?thesis using nf by blast
    qed
  qed
qed

subsection \<open>The shape of what the parsers return\<close>

lemma parse_cpu_shape:
  assumes "parse_cpu st msg = Inr st'"
  shows "hosts st' = hosts st \<or>
         (\<exists>x hs i a b c d. get_host (hosts st) x = Inr (hs, Some i) \<and>
            hosts st' = hs[i := (hs ! i)\<lparr>cpu_usage := a, cpu_user := b, cpu_sys := c,
                                          cpu_idle := d, has_cpu := 1\<rparr>]) \<or>
         (\<exists>x. get_host (hosts st) x = Inr (hosts st', None))"
  using assms unfolding parse_cpu_def Let_def
  by (auto split: prod.splits option.splits sum.splits) blast+

lemma parse_mem_shape:
  assumes "parse_mem st msg = Inr st'"
  shows "hosts st' = hosts st \<or>
         (\<exists>x hs i a b c d. get_host (hosts st) x = Inr (hs, Some i) \<and>
            hosts st' = hs[i := (hs ! i)\<lparr>mem_used := a, mem_free := b, swap_t := c,
                                          swap_f := d, has_mem := 1\<rparr>]) \<or>
         (\<exists>x. get_host (hosts st) x = Inr (hosts st', None))"
  using assms unfolding parse_mem_def Let_def
  by (auto split: prod.splits option.splits sum.splits) blast+


subsection \<open>Names and flags only grow\<close>

lemma grows_refl: "grows hs hs"
  by (simp add: grows_def)

lemma grows_trans: "grows a b \<Longrightarrow> grows b c \<Longrightarrow> grows a c"
  by (auto simp: grows_def)

lemma grows_update:
  assumes "i < length hs \<Longrightarrow>
     (ip (hs ! i) \<noteq> [] \<longrightarrow> ip y = ip (hs ! i)) \<and>
     (has_cpu (hs ! i) \<noteq> 0 \<longrightarrow> has_cpu y \<noteq> 0) \<and>
     (has_mem (hs ! i) \<noteq> 0 \<longrightarrow> has_mem y \<noteq> 0)"
  shows "grows hs (hs[i := y])"
proof (cases "i < length hs")
  case True
  from assms [OF True] True show ?thesis
    by (auto simp: grows_def nth_list_update)
next
  case False
  then have "hs[i := y] = hs" by (intro list_update_beyond) simp
  then show ?thesis by (simp add: grows_refl)
qed

lemma get_host_grows:
  assumes "get_host hs x = Inr (hs', r)"
  shows "grows hs hs'"
  using get_host_cases [OF assms]
  by (auto intro!: grows_update simp: grows_refl)

lemma parse_cpu_grows:
  assumes "parse_cpu st msg = Inr st'"
  shows "grows (hosts st) (hosts st')"
  using parse_cpu_shape [OF assms]
proof (elim disjE exE conjE)
  assume "hosts st' = hosts st"
  then show ?thesis by (simp add: grows_refl)
next
  fix x hs i a b c d
  assume g: "get_host (hosts st) x = Inr (hs, Some i)"
    and h: "hosts st' = hs[i := (hs ! i)\<lparr>cpu_usage := a, cpu_user := b, cpu_sys := c,
                                          cpu_idle := d, has_cpu := 1\<rparr>]"
  have "grows hs (hosts st')"
    unfolding h by (rule grows_update) simp
  with get_host_grows [OF g] show ?thesis by (rule grows_trans)
next
  fix x
  assume "get_host (hosts st) x = Inr (hosts st', None)"
  then show ?thesis by (rule get_host_grows)
qed

lemma parse_mem_grows:
  assumes "parse_mem st msg = Inr st'"
  shows "grows (hosts st) (hosts st')"
  using parse_mem_shape [OF assms]
proof (elim disjE exE conjE)
  assume "hosts st' = hosts st"
  then show ?thesis by (simp add: grows_refl)
next
  fix x hs i a b c d
  assume g: "get_host (hosts st) x = Inr (hs, Some i)"
    and h: "hosts st' = hs[i := (hs ! i)\<lparr>mem_used := a, mem_free := b, swap_t := c,
                                          swap_f := d, has_mem := 1\<rparr>]"
  have "grows hs (hosts st')"
    unfolding h by (rule grows_update) simp
  with get_host_grows [OF g] show ?thesis by (rule grows_trans)
next
  fix x
  assume "get_host (hosts st) x = Inr (hosts st', None)"
  then show ?thesis by (rule get_host_grows)
qed

lemma next_line_in_copy_hosts:
  assumes "next_line_in_copy r = Inr st'"
  shows "\<exists>st1. r = Inr st1 \<and> hosts st' = hosts st1"
  using assms
  by (auto simp: next_line_in_copy_def split: sum.splits prod.splits option.splits)

lemma lines_loop_grows:
  "lines_loop st line = Inr st' \<Longrightarrow> grows (hosts st) (hosts st')"
proof (induction st line rule: lines_loop.induct)
  case (1 st)
  then show ?case by (simp add: grows_refl)
next
  case (2 st line)
  define copy where "copy = take (MAX_LINE - 1) (strncpy line MAX_LINE)"
  consider (cpu) "take 4 copy = ''CPU;''"
    | (mem) "take 4 copy \<noteq> ''CPU;''" "take 4 copy = ''MEM;''"
    | (other) "take 4 copy \<noteq> ''CPU;''" "take 4 copy \<noteq> ''MEM;''"
    by blast
  then show ?case
  proof cases
    case cpu
    with "2.prems" have "next_line_in_copy (parse_cpu st copy) = Inr st'"
      by (simp add: copy_def)
    from next_line_in_copy_hosts [OF this] obtain st1
      where "parse_cpu st copy = Inr st1" "hosts st' = hosts st1" by blast
    with parse_cpu_grows [of st copy st1] show ?thesis by simp
  next
    case mem
    with "2.prems" have "next_line_in_copy (parse_mem st copy) = Inr st'"
      by (simp add: copy_def)
    from next_line_in_copy_hosts [OF this] obtain st1
      where "parse_mem st copy = Inr st1" "hosts st' = hosts st1" by blast
    with parse_mem_grows [of st copy st1] show ?thesis by simp
  next
    case other
    obtain l s where t: "strtok None [CHR 0x0A] (olds st) = (l, s)"
      by (cases "strtok None [CHR 0x0A] (olds st)")
    with other "2.prems" have "lines_loop (st\<lparr>olds := s\<rparr>) l = Inr st'"
      by (simp add: copy_def)
    with "2.IH" [OF copy_def other(1) other(2) t [symmetric]]
    show ?thesis by simp
  qed
qed

lemma client_thread_grows:
  "client_thread st rs = Inr st' \<Longrightarrow> grows (hosts st) (hosts st')"
proof (induction rs arbitrary: st)
  case Nil
  then show ?case by (simp add: grows_refl)
next
  case (Cons r rs)
  show ?case
  proof (cases "r = []")
    case True
    with Cons.prems show ?thesis by (simp add: grows_refl)
  next
    case False
    obtain l s where t: "strtok (Some (takeWhile (\<lambda>c. c \<noteq> CHR 0x00) r)) [CHR 0x0A] (olds st) = (l, s)"
      by (cases "strtok (Some (takeWhile (\<lambda>c. c \<noteq> CHR 0x00) r)) [CHR 0x0A] (olds st)")
    with False Cons.prems obtain st1 where a: "lines_loop (st\<lparr>olds := s\<rparr>) l = Inr st1"
      and b: "client_thread st1 rs = Inr st'"
      by (auto split: sum.splits)
    from lines_loop_grows [OF a] have "grows (hosts st) (hosts st1)" by simp
    with Cons.IH [OF b] show ?thesis by (blast intro: grows_trans)
  qed
qed

subsection \<open>A line of the wire format\<close>


lemma parse_wire_more:
  assumes "fields_ok u"
  shows "parse (kind u) st (wire_line u @ CHR '';'' # r) = apply_update u (hosts st) r"
proof -
  from assms have f: "host_id u \<noteq> []" "CHR '';'' \<notin> set (host_id u)"
    "v1 u \<noteq> []" "CHR '';'' \<notin> set (v1 u)" "v2 u \<noteq> []" "CHR '';'' \<notin> set (v2 u)"
    "v3 u \<noteq> []" "CHR '';'' \<notin> set (v3 u)" "v4 u \<noteq> []" "CHR '';'' \<notin> set (v4 u)"
    by (simp_all add: fields_ok_def field_ok_def)
  show ?thesis
  proof (cases "kind u")
    case CPU
    then show ?thesis
      using f
      by (simp add: parse_def wire_line_def parse_cpu_def strtok_CPU strtok_field_more
          atof_ptr_def apply_update_def store_def
          split: sum.splits prod.splits option.splits)
  next
    case MEM
    then show ?thesis
      using f
      by (simp add: parse_def wire_line_def parse_mem_def strtok_MEM strtok_field_more
          atof_ptr_def apply_update_def store_def
          split: sum.splits prod.splits option.splits)
  qed
qed






subsection \<open>The table as a list of names\<close>

lemma table_of_init: "table_of [] init_hosts"
  by (simp add: table_of_def init_hosts_def zero_host_def)

lemma table_of_nth:
  assumes "table_of ids hs" "j < MAX_HOSTS"
  shows "ip (hs ! j) = (if j < length ids then ids ! j else [])"
proof -
  from assms have "j < length hs"
    by (simp add: table_of_def)
  then have "ip (hs ! j) = map ip hs ! j"
    by simp
  also have "\<dots> = (ids @ replicate (MAX_HOSTS - length ids) []) ! j"
    using assms by (simp add: table_of_def)
  also have "\<dots> = (if j < length ids then ids ! j else [])"
    using assms by (simp add: nth_append table_of_def)
  finally show ?thesis .
qed

lemma table_of_short:
  assumes "table_of ids hs" "j < MAX_HOSTS"
  shows "length (ip (hs ! j)) < IP_SIZE"
proof (cases "j < length ids")
  case True
  then have "ids ! j \<in> set ids" by simp
  with assms True show ?thesis by (auto simp: table_of_nth table_of_def)
next
  case False
  with assms show ?thesis by (simp add: table_of_nth IP_SIZE_def)
qed

lemma get_host_known:
  assumes t: "table_of ids hs" and i: "i < length ids"
  shows "get_host hs (ids ! i) = Inr (hs, Some i)"
proof -
  from t i have iM: "i < MAX_HOSTS" by (simp add: table_of_def)
  have a: "ip (hs ! i) = ids ! i"
    using t i iM by (simp add: table_of_nth)
  have b: "\<forall>j. 0 \<le> j \<and> j < i \<longrightarrow> ip (hs ! j) \<noteq> ids ! i"
  proof (intro allI impI)
    fix j assume "0 \<le> j \<and> j < i"
    then have j: "j < i" by simp
    with i iM t have "ip (hs ! j) = ids ! j" by (simp add: table_of_nth)
    moreover from t have "distinct ids" by (simp add: table_of_def)
    with j i have "ids ! j \<noteq> ids ! i" by (simp add: nth_eq_iff_index_eq)
    ultimately show "ip (hs ! j) \<noteq> ids ! i" by simp
  qed
  have c: "\<forall>j. 0 \<le> j \<and> j \<le> i \<longrightarrow> length (ip (hs ! j)) < IP_SIZE"
    using t iM by (auto intro: table_of_short)
  from get_host_find_hit [OF _ iM a b c] show ?thesis
    by (simp add: get_host_def)
qed

lemma get_host_find_unknown:
  assumes t: "table_of ids hs" and x: "x \<notin> set ids" "x \<noteq> []"
  shows "get_host_find hs x 0 = Inr None"
proof (rule get_host_find_miss, intro allI impI)
  fix j assume "0 \<le> j \<and> j < MAX_HOSTS"
  then have j: "j < MAX_HOSTS" by simp
  have "ip (hs ! j) \<noteq> x"
  proof (cases "j < length ids")
    case True
    then have "ids ! j \<in> set ids" by simp
    with x True t j show ?thesis by (auto simp: table_of_nth)
  next
    case False
    with x t j show ?thesis by (simp add: table_of_nth)
  qed
  with table_of_short [OF t j]
  show "ip (hs ! j) \<noteq> x \<and> length (ip (hs ! j)) < IP_SIZE" by simp
qed

lemma get_host_new:
  assumes t: "table_of ids hs" and x: "x \<notin> set ids" "x \<noteq> []" "length x < IP_SIZE"
    and room: "length ids < MAX_HOSTS"
  shows "get_host hs x =
    Inr (hs[length ids := (hs ! length ids)\<lparr>ip := x\<rparr>], Some (length ids))"
proof -
  have a: "ip (hs ! length ids) = []"
    using t room by (simp add: table_of_nth)
  have b: "\<forall>j. 0 \<le> j \<and> j < length ids \<longrightarrow> ip (hs ! j) \<noteq> []"
  proof (intro allI impI)
    fix j assume "0 \<le> j \<and> j < length ids"
    then have j: "j < length ids" by simp
    then have "ids ! j \<in> set ids" by simp
    with t have "ids ! j \<noteq> []" by (auto simp: table_of_def)
    with t j room show "ip (hs ! j) \<noteq> []" by (simp add: table_of_nth)
  qed
  from get_host_free_hit [OF _ room a b] get_host_find_unknown [OF t x(1,2)] x(3)
  show ?thesis
    by (simp add: get_host_def strncpy_def)
qed


lemma table_of_update:
  assumes "table_of ids hs" "ip y = ip (hs ! i)"
  shows "table_of ids (hs[i := y])"
proof -
  have "map ip (hs[i := y]) = (map ip hs)[i := ip (hs ! i)]"
    using assms(2) by (simp add: map_update)
  also have "\<dots> = map ip hs"
    by (metis list_update_beyond list_update_id map_update not_le_imp_less nth_map order_refl length_map)
  finally show ?thesis
    using assms(1) by (simp add: table_of_def)
qed

lemma table_of_new:
  assumes t: "table_of ids hs" and x: "x \<notin> set ids" "x \<noteq> []" "length x < IP_SIZE"
    and room: "length ids < MAX_HOSTS"
  shows "table_of (ids @ [x]) (hs[length ids := (hs ! length ids)\<lparr>ip := x\<rparr>])"
proof -
  let ?n = "length ids"
  have "map ip (hs[?n := (hs ! ?n)\<lparr>ip := x\<rparr>]) = (map ip hs)[?n := x]"
    by (simp add: map_update)
  also have "\<dots> = (ids @ replicate (MAX_HOSTS - ?n) [])[?n := x]"
    using t by (simp add: table_of_def)
  also have "\<dots> = ids @ (replicate (MAX_HOSTS - ?n) [])[0 := x]"
    by (simp add: list_update_append)
  also have "replicate (MAX_HOSTS - ?n) [] = [] # replicate (MAX_HOSTS - Suc ?n) ([]::string)"
    using room by (cases "MAX_HOSTS - ?n") (auto simp: Suc_diff_Suc)
  finally have "map ip (hs[?n := (hs ! ?n)\<lparr>ip := x\<rparr>]) =
      (ids @ [x]) @ replicate (MAX_HOSTS - length (ids @ [x])) []"
    by simp
  with t x room show ?thesis
    by (simp add: table_of_def)
qed



subsection \<open>Names in the order of their arrival\<close>


lemma distinct_arrival: "distinct (arrival xs)"
  by (simp add: arrival_def)




subsection \<open>A sequence of valid updates, one line to a read\<close>



subsection \<open>Tables with one record\<close>

lemma init_hosts_nth: "i < MAX_HOSTS \<Longrightarrow> init_hosts ! i = zero_host"
  by (simp add: init_hosts_def)

lemma length_init_hosts: "length init_hosts = MAX_HOSTS"
  by (simp add: init_hosts_def)

lemma get_host_init:
  assumes "x \<noteq> []" "length x < IP_SIZE"
  shows "get_host init_hosts x = Inr (init_hosts[0 := zero_host\<lparr>ip := x\<rparr>], Some 0)"
  using get_host_new [OF table_of_init _ assms]
  by (simp add: init_hosts_nth MAX_HOSTS_def)

lemma table_of_one:
  assumes "x \<noteq> []" "length x < IP_SIZE" "ip h = x"
  shows "table_of [x] (init_hosts[0 := h])"
proof -
  from table_of_new [OF table_of_init _ assms(1,2)]
  have "table_of [x] (init_hosts[0 := (init_hosts ! 0)\<lparr>ip := x\<rparr>])"
    by (simp add: MAX_HOSTS_def)
  from table_of_update [OF this, of h 0] assms(3) show ?thesis
    by (simp add: init_hosts_def MAX_HOSTS_def)
qed

lemma get_host_one:
  assumes "x \<noteq> []" "length x < IP_SIZE" "ip h = x"
  shows "get_host (init_hosts[0 := h]) x = Inr (init_hosts[0 := h], Some 0)"
  using get_host_known [OF table_of_one [OF assms], of 0] by simp

lemmas atof_eval = atof_def strtod_body_def mantissa_def exponent_def isspace_def isdigit_def
  isxdigit_def tolower_def xdigit_val_def Let_def

subsection \<open>The parsers and the static pointer\<close>

lemma parse_cpu_olds: "parse_cpu (st\<lparr>olds := x\<rparr>) msg = parse_cpu st msg"
  by (simp add: parse_cpu_def strtok_Some split: prod.splits option.splits sum.splits)

lemma parse_mem_olds: "parse_mem (st\<lparr>olds := x\<rparr>) msg = parse_mem st msg"
  by (simp add: parse_mem_def strtok_Some split: prod.splits option.splits sum.splits)

lemma strtok_whole:
  assumes "l \<noteq> []" "CHR 0x0A \<notin> set l"
  shows "strtok (Some l) [CHR 0x0A] x = (Some l, [])"
proof -
  obtain c cs where l: "l = c # cs" using assms(1) by (cases l) auto
  with assms(2) have c: "c \<noteq> CHR 0x0A" and cs: "\<forall>x\<in>set cs. x \<noteq> CHR 0x0A" by auto
  have t: "takeWhile (\<lambda>c. c \<noteq> CHR 0x0A) cs = cs"
    using cs by simp
  have d: "dropWhile (\<lambda>c. c \<noteq> CHR 0x0A) cs = []"
    using cs by simp
  show ?thesis
    by (simp add: strtok_def l c t d)
qed



lemma apply_update_rest:
  "apply_update u hs r =
     (case apply_update u hs [] of Inl f \<Rightarrow> Inl f | Inr st' \<Rightarrow> Inr (st'\<lparr>olds := r\<rparr>))"
  by (simp add: apply_update_def split: sum.splits prod.splits option.splits)

subsection \<open>\<^verbatim>\<open>get_host\<close> on a table whose names are strings\<close>











subsection \<open>The end of a read ends its last line\<close>




lemma client_thread_partial:
  assumes "r \<noteq> []" "CHR 0x0A \<notin> set r" "CHR 0x00 \<notin> set r" "length r < MAX_LINE"
  shows "client_thread st (r # rs) =
     (case (if take 4 r = ''CPU;'' then next_line_in_copy (parse_cpu st r)
            else if take 4 r = ''MEM;'' then next_line_in_copy (parse_mem st r)
            else Inr (st\<lparr>olds := []\<rparr>)) of
        Inl f \<Rightarrow> Inl f
      | Inr st' \<Rightarrow> client_thread st' rs)"
proof -
  have nul: "takeWhile (\<lambda>c. c \<noteq> CHR 0x00) r = r"
    using assms(3) by (auto simp: takeWhile_eq_all_conv)
  have copy: "take (MAX_LINE - 1) (strncpy r MAX_LINE) = r"
    using assms(4) by (simp add: strncpy_def)
  have loop: "lines_loop (st\<lparr>olds := []\<rparr>) (Some r) =
     (if take 4 r = ''CPU;'' then next_line_in_copy (parse_cpu st r)
      else if take 4 r = ''MEM;'' then next_line_in_copy (parse_mem st r)
      else Inr (st\<lparr>olds := []\<rparr>))"
    using copy by (simp add: parse_cpu_olds parse_mem_olds strtok_nil)
  show ?thesis
    using assms(1)
    by (simp add: nul strtok_whole [OF assms(1,2)] loop del: lines_loop.simps)
qed

section \<open>Lines with missing fields\<close>

text \<open>
  Claim C1: a line that begins with \<^verbatim>\<open>CPU;\<close> or \<^verbatim>\<open>MEM;\<close> and has fewer than the five
  further fields is discarded, with the table left as it was. \<^verbatim>\<open>parse_cpu\<close> tests the
  tokens of the host and of the usage for NULL, but hands the next three results of
  \<^verbatim>\<open>strtok\<close> to \<^verbatim>\<open>atof\<close> untested. On the line \<^verbatim>\<open>CPU;10.0.0.1;1;2\<close>, which has two of
  the four numeric fields, the token of the system share is NULL and \<^verbatim>\<open>atof(NULL)\<close> is
  reached: the line is not discarded, the call has no defined result.
\<close>

theorem parse_cpu_missing_field_fault:
  "parse_cpu st ''CPU;10.0.0.1;1;2'' = Inl NullPointer"
  by (simp add: parse_cpu_def strtok_def atof_ptr_def)

text \<open>
  Claim C2: no line, whatever its content, crashes the collector. Received on a
  connection, the line \<^verbatim>\<open>MEM;10.0.0.1\<close> reaches \<^verbatim>\<open>parse_mem\<close>, which tests only the
  token of the host: the token of the used memory is NULL and goes to \<^verbatim>\<open>atof\<close>.
\<close>

theorem client_thread_missing_field_fault:
  "client_thread st [''MEM;10.0.0.1'' @ [CHR 0x0A]] = Inl NullPointer"
  by (simp add: parse_mem_def strtok_def atof_ptr_def next_line_in_copy_def
      strncpy_def MAX_LINE_def)

section \<open>Lines and reads\<close>




section \<open>The capacity of the table\<close>



section \<open>Flags and records over the life of a connection\<close>

text \<open>
  Claim C5: the flags \<^verbatim>\<open>has_cpu\<close> and \<^verbatim>\<open>has_mem\<close> are monotone, and a record, once
  created, is never removed. Whatever a connection receives, if the receive loop comes
  to its end then every record of the table that had a flag set still has it set, every
  record that had a name still has that name, and the table has as many records as
  before.
\<close>

theorem flags_and_records_stay:
  assumes "client_thread st rs = Inr st'" and "j < length (hosts st)"
  shows "(has_cpu (hosts st ! j) \<noteq> 0 \<longrightarrow> has_cpu (hosts st' ! j) \<noteq> 0) \<and>
         (has_mem (hosts st ! j) \<noteq> 0 \<longrightarrow> has_mem (hosts st' ! j) \<noteq> 0) \<and>
         (ip (hosts st ! j) \<noteq> [] \<longrightarrow> ip (hosts st' ! j) = ip (hosts st ! j)) \<and>
         length (hosts st') = length (hosts st)"
  using client_thread_grows [OF assms(1)] assms(2) by (simp add: grows_def)

theorem flags_and_records_stay_witness:
  "client_thread \<lparr>hosts = init_hosts[0 := zero_host\<lparr>ip := ''a'', has_cpu := 1\<rparr>], olds = []\<rparr>
     [''MEM;a;1;2;3;4'' @ [CHR 0x0A]] =
   Inr \<lparr>hosts = init_hosts[0 := zero_host\<lparr>ip := ''a'', mem_used := Fin False 1,
          mem_free := Fin False 2, swap_t := Fin False 3, swap_f := Fin False 4,
          has_cpu := 1, has_mem := 1\<rparr>], olds = []\<rparr> \<and>
   has_cpu (init_hosts[0 := zero_host\<lparr>ip := ''a'', has_cpu := 1\<rparr>] ! 0) \<noteq> 0 \<and>
   has_cpu (init_hosts[0 := zero_host\<lparr>ip := ''a'', mem_used := Fin False 1,
          mem_free := Fin False 2, swap_t := Fin False 3, swap_f := Fin False 4,
          has_cpu := 1, has_mem := 1\<rparr>] ! 0) \<noteq> 0"
proof -
  let ?st = "\<lparr>hosts = init_hosts[0 := zero_host\<lparr>ip := ''a'', has_cpu := 1\<rparr>], olds = []\<rparr>"
  let ?st' = "\<lparr>hosts = init_hosts[0 := zero_host\<lparr>ip := ''a'', mem_used := Fin False 1,
          mem_free := Fin False 2, swap_t := Fin False 3, swap_f := Fin False 4,
          has_cpu := 1, has_mem := 1\<rparr>], olds = []\<rparr>"
  have run: "client_thread ?st [''MEM;a;1;2;3;4'' @ [CHR 0x0A]] = Inr ?st'"
    by (simp add: parse_mem_def strtok_def atof_ptr_def next_line_in_copy_def
      strncpy_def MAX_LINE_def get_host_one IP_SIZE_def atof_eval length_init_hosts
      MAX_HOSTS_def zero_host_def)
  have j: "0 < length (hosts ?st)"
    by (simp add: length_init_hosts MAX_HOSTS_def)
  have "has_cpu (hosts ?st ! 0) \<noteq> 0"
    by (simp add: length_init_hosts MAX_HOSTS_def)
  with flags_and_records_stay [OF run j] run show ?thesis
    by simp
qed

section \<open>CPU and memory updates for one host\<close>





section \<open>Fields that are empty, no numbers, or too many\<close>

text \<open>
  Claim C7 says that a line whose host field is empty is discarded. \<^verbatim>\<open>strtok\<close> takes
  a run of separators for one separator, so the parser never sees an empty field: in
  \<^verbatim>\<open>CPU;;10;20;30;40;50\<close> the token after \<^verbatim>\<open>CPU\<close> is \<^verbatim>\<open>10\<close>, and a record for the
  host \<^verbatim>\<open>10\<close> is created in the empty table.
\<close>

theorem empty_host_counterexample:
  "parse_cpu \<lparr>hosts = init_hosts, olds = []\<rparr> ''CPU;;10;20;30;40;50'' =
   Inr \<lparr>hosts = init_hosts[0 := zero_host\<lparr>ip := ''10'', cpu_usage := Fin False 20,
           cpu_user := Fin False 30, cpu_sys := Fin False 40, cpu_idle := Fin False 50,
           has_cpu := 1\<rparr>], olds = []\<rparr>"
  by (simp add: parse_cpu_def strtok_def atof_ptr_def
      get_host_init IP_SIZE_def atof_eval length_init_hosts MAX_HOSTS_def)

text \<open>
  Claim C7 as amended: an empty host field is skipped by the tokenizer, and the line is
  handled as the same line without that field, so that the field behind it is taken for
  the host.
\<close>

theorem empty_host_field_skipped:
  "parse_cpu st (''CPU;;'' @ r) = parse_cpu st (''CPU;'' @ r) \<and>
   parse_mem st (''MEM;;'' @ r) = parse_mem st (''MEM;'' @ r)"
  by (simp add: parse_cpu_def parse_mem_def strtok_CPU strtok_MEM strtok_skip)



text \<open>
  Claim C10: a line with more than the five fields is not discarded; its first five
  fields are applied and the fields behind them are ignored. The parser does apply the
  first five fields and reads no further, but it leaves the static pointer of
  \<^verbatim>\<open>strtok\<close> at the text it did not read, inside \<^verbatim>\<open>copy\<close>. The receive loop made the
  copy to keep the parser's \<^verbatim>\<open>strtok\<close> away from \<^verbatim>\<open>buf\<close>, and then asks
  \<^verbatim>\<open>strtok(NULL, "\n")\<close> for the next line of \<^verbatim>\<open>buf\<close>: what it gets is the text behind
  the fifth field, as a line that lies in the \<^verbatim>\<open>copy\<close> of the iteration that has ended.
  On the line \<^verbatim>\<open>CPU;a;1;2;3;4;MEM;b;5;6;7;8\<close> the parser stores the update for the host
  \<^verbatim>\<open>a\<close> and leaves \<^verbatim>\<open>MEM;b;5;6;7;8\<close> behind, and the receive loop goes on with that
  text: the extra fields are not ignored.
\<close>

theorem extra_fields_reread:
  "parse_cpu \<lparr>hosts = init_hosts, olds = []\<rparr> ''CPU;a;1;2;3;4;MEM;b;5;6;7;8'' =
     Inr \<lparr>hosts = init_hosts[0 := zero_host\<lparr>ip := ''a'', cpu_usage := Fin False 1,
            cpu_user := Fin False 2, cpu_sys := Fin False 3, cpu_idle := Fin False 4,
            has_cpu := 1\<rparr>],
          olds = ''MEM;b;5;6;7;8''\<rparr> \<and>
   client_thread \<lparr>hosts = init_hosts, olds = []\<rparr>
     [''CPU;a;1;2;3;4;MEM;b;5;6;7;8'' @ [CHR 0x0A]] = Inl DeadObject"
  by (simp add: parse_cpu_def strtok_def atof_ptr_def next_line_in_copy_def
      strncpy_def MAX_LINE_def get_host_init IP_SIZE_def atof_eval length_init_hosts MAX_HOSTS_def)

end
